theory Spec2Isabelle
  imports Main
begin

section \<open>Python values used by \<^verbatim>\<open>visualizer.py\<close>\<close>

text \<open>
  Python strings are modelled as \<^typ>\<open>string\<close>; a character stands for one code point
  below 256 (package names and the output of \<^verbatim>\<open>apt-cache\<close> are ASCII).

  The exceptions that the string and list operations of the source can raise are values
  of \<open>error\<close>; a computation that can raise returns \<open>error + 'a\<close>.
\<close>

datatype error = ValueError | IndexError

text \<open>\<^verbatim>\<open>str.isspace\<close> for one character (code points below 256).\<close>

definition is_space :: "char \<Rightarrow> bool" where
  "is_space c \<longleftrightarrow>
     c \<in> set [CHR 0x09, CHR 0x0A, CHR 0x0B, CHR 0x0C, CHR 0x0D,
              CHR 0x1C, CHR 0x1D, CHR 0x1E, CHR 0x1F, CHR 0x20, CHR 0x85, CHR 0xA0]"

text \<open>\<^verbatim>\<open>s.strip()\<close>: white space removed at both ends.\<close>

definition str_strip :: "string \<Rightarrow> string" where
  "str_strip s = rev (dropWhile is_space (rev (dropWhile is_space s)))"

text \<open>\<^verbatim>\<open>s.startswith(p)\<close>.\<close>

definition str_startswith :: "string \<Rightarrow> string \<Rightarrow> bool" where
  "str_startswith s p \<longleftrightarrow> take (length p) s = p"

text \<open>
  \<^verbatim>\<open>s.split(sep)\<close>: the pieces of \<open>s\<close> between the occurrences of \<open>sep\<close>, found from
  left to right without overlap. \<open>split_from sep acc s\<close> scans \<open>s\<close>, with the current piece
  reversed in \<open>acc\<close>. An empty separator raises ValueError.
\<close>

fun split_from :: "string \<Rightarrow> string \<Rightarrow> string \<Rightarrow> string list" where
  "split_from sep acc [] = [rev acc]"
| "split_from sep acc (c # cs) =
     (if take (length sep) (c # cs) = sep
      then rev acc # split_from sep [] (drop (length sep - 1) cs)
      else split_from sep (c # acc) cs)"

definition str_split :: "string \<Rightarrow> string \<Rightarrow> error + string list" where
  "str_split s sep = (if sep = [] then Inl ValueError else Inr (split_from sep [] s))"

text \<open>\<^verbatim>\<open>xs[i]\<close> for an index \<open>i \<ge> 0\<close>: IndexError out of range.\<close>

definition item :: "'a list \<Rightarrow> nat \<Rightarrow> error + 'a" where
  "item xs i = (if i < length xs then Inr (xs ! i) else Inl IndexError)"

text \<open>
  \<^verbatim>\<open>s.splitlines()\<close>: the lines of \<open>s\<close> without their line boundaries; \<^verbatim>\<open>\r\n\<close> is one
  boundary, and a boundary at the very end opens no further line.
\<close>

definition is_linebreak :: "char \<Rightarrow> bool" where
  "is_linebreak c \<longleftrightarrow>
     c \<in> set [CHR 0x0A, CHR 0x0B, CHR 0x0C, CHR 0x0D, CHR 0x1C, CHR 0x1D, CHR 0x1E, CHR 0x85]"

fun lines_from :: "string \<Rightarrow> string \<Rightarrow> string list" where
  "lines_from acc [] = (if acc = [] then [] else [rev acc])"
| "lines_from acc [c] = (if is_linebreak c then [rev acc] else [rev (c # acc)])"
| "lines_from acc (c # d # cs) =
     (if c = CHR 0x0D \<and> d = CHR 0x0A then rev acc # lines_from [] cs
      else if is_linebreak c then rev acc # lines_from [] (d # cs)
      else lines_from (c # acc) (d # cs))"

definition str_splitlines :: "string \<Rightarrow> string list" where
  "str_splitlines s = lines_from [] s"

text \<open>
  A Python \<^verbatim>\<open>set\<close> of strings is the list of its elements, without repetition, in the
  order they were first added. \<^verbatim>\<open>s.add(x)\<close>:
\<close>

type_synonym pyset = "string list"

definition set_add :: "string \<Rightarrow> pyset \<Rightarrow> pyset" where
  "set_add x xs = (if x \<in> set xs then xs else xs @ [x])"

text \<open>
  A Python \<^verbatim>\<open>dict\<close> is the list of its items in insertion order. \<^verbatim>\<open>d[k] = v\<close>
  replaces the value of a key that is present, in place, and appends a new key.
\<close>

type_synonym 'v pydict = "(string \<times> 'v) list"

fun dict_set :: "string \<Rightarrow> 'v \<Rightarrow> 'v pydict \<Rightarrow> 'v pydict" where
  "dict_set k v [] = [(k, v)]"
| "dict_set k v ((k', v') # d) = (if k' = k then (k, v) # d else (k', v') # dict_set k v d)"

text \<open>
  A \<^verbatim>\<open>for\<close> loop whose body updates a state and may raise: the loop stops at the first
  exception.
\<close>

fun for_each :: "('a \<Rightarrow> 's \<Rightarrow> error + 's) \<Rightarrow> 'a list \<Rightarrow> 's \<Rightarrow> error + 's" where
  "for_each body [] s = Inr s"
| "for_each body (x # xs) s =
     (case body x s of Inl err \<Rightarrow> Inl err | Inr s' \<Rightarrow> for_each body xs s')"

lemma for_each_cong [fundef_cong]:
  "xs = ys \<Longrightarrow> s = t \<Longrightarrow> (\<And>x u. x \<in> set ys \<Longrightarrow> body x u = body' x u)
   \<Longrightarrow> for_each body xs s = for_each body' ys t"
proof (induction ys arbitrary: xs s t)
  case Nil
  then show ?case by simp
next
  case (Cons y ys)
  then show ?case by (auto split: sum.splits)
qed

section \<open>The outside world\<close>

text \<open>
  \<^verbatim>\<open>subprocess.run(argv, capture_output=True, text=True)\<close> returns a
  \<^verbatim>\<open>CompletedProcess\<close>; without \<^verbatim>\<open>check=True\<close> a non-zero return code raises
  nothing. The world of one run of the program gives the completed process of every
  command line, and the order in which a \<^verbatim>\<open>for\<close> loop meets the elements of a set:
  CPython's order depends on the hashes of the strings, which change from run to run, so
  \<open>set_order\<close> is any function from the elements in insertion order to the elements in
  iteration order. The two operations of \<^verbatim>\<open>pathlib\<close> that \<^verbatim>\<open>main\<close> applies to the
  output path are taken from outside as well: \<^verbatim>\<open>Path.with_suffix\<close>, which raises
  ValueError on a path with an empty name, and \<^verbatim>\<open>Path.parent\<close>. A path is the string
  that \<^verbatim>\<open>str\<close> gives for it.

  The program is taken to run where its commands can be started and its file can be
  written: an \<^verbatim>\<open>OSError\<close> of \<^verbatim>\<open>subprocess.run\<close> or of \<^verbatim>\<open>open\<close>, and the
  interpreter's limit on the depth of recursion, are outside the model.
\<close>

record completed_process =
  returncode :: int
  stdout :: string
  stderr :: string

record world =
  subprocess_run :: "string list \<Rightarrow> completed_process"
  set_order :: "pyset \<Rightarrow> string list"
  path_with_suffix :: "string \<Rightarrow> string \<Rightarrow> error + string"
  path_parent :: "string \<Rightarrow> string"

text \<open>
  In every run of CPython a loop over a set meets each element exactly once: \<open>order_ok\<close>
  says so of \<open>set_order\<close>.
\<close>

definition order_ok :: "world \<Rightarrow> bool" where
  "order_ok w \<longleftrightarrow>
     (\<forall>xs. distinct xs \<longrightarrow> set (set_order w xs) = set xs \<and> distinct (set_order w xs))"

section \<open>\<^verbatim>\<open>fetch_dependencies\<close>\<close>

text \<open>
  The two variables that \<^verbatim>\<open>get_deps\<close> closes over and updates, and the command lines
  run so far. \<^verbatim>\<open>visited\<close> is only added to and tested for membership, never looped
  over, so it is a plain set.
\<close>

record fetch_state =
  dependencies :: "pyset pydict"
  visited :: "string set"
  calls :: "string list list"

text \<open>Lines 34 to 38: the loop over the lines of the command's output.\<close>

fun collect_deps :: "string list \<Rightarrow> pyset \<Rightarrow> error + pyset" where
  "collect_deps [] package_deps = Inr package_deps"
| "collect_deps (line # lines) package_deps =
     (if str_startswith (str_strip line) ''Depends:''
      then (case str_split line ''Depends:'' of
              Inl err \<Rightarrow> Inl err
            | Inr parts \<Rightarrow>
                (case item parts 1 of
                   Inl err \<Rightarrow> Inl err
                 | Inr part \<Rightarrow> collect_deps lines (set_add (str_strip part) package_deps)))
      else collect_deps lines package_deps)"

function get_deps :: "world \<Rightarrow> int \<Rightarrow> string \<Rightarrow> int \<Rightarrow> fetch_state \<Rightarrow> error + fetch_state" where
  "get_deps w max_depth package current_depth s =
     (if current_depth > max_depth \<or> package \<in> visited s then Inr s
      else
        let s1 = s\<lparr>visited := insert package (visited s)\<rparr>;
            argv = [''apt-cache'', ''depends'', package];
            result = subprocess_run w argv;
            s2 = s1\<lparr>calls := calls s1 @ [argv]\<rparr>;
            lines = str_splitlines (stdout result)
        in case collect_deps lines [] of
             Inl err \<Rightarrow> Inl err
           | Inr package_deps \<Rightarrow>
               for_each (\<lambda>dep. get_deps w max_depth dep (current_depth + 1))
                 (set_order w package_deps)
                 (s2\<lparr>dependencies := dict_set package package_deps (dependencies s2)\<rparr>))"
  by pat_completeness auto
termination
  by (relation "measure (\<lambda>(w, max_depth, package, current_depth, s). nat (max_depth + 1 - current_depth))")
     auto

definition fetch_run :: "world \<Rightarrow> string \<Rightarrow> int \<Rightarrow> error + fetch_state" where
  "fetch_run w package_name max_depth =
     get_deps w max_depth package_name 1 \<lparr>dependencies = [], visited = {}, calls = []\<rparr>"

definition fetch_dependencies :: "world \<Rightarrow> string \<Rightarrow> int \<Rightarrow> string \<Rightarrow> error + pyset pydict" where
  "fetch_dependencies w package_name max_depth repo_url =
     (case fetch_run w package_name max_depth of
        Inl err \<Rightarrow> Inl err
      | Inr s \<Rightarrow> Inr (dependencies s))"

text \<open>
  What the metadata source answers for one package: the names on the \<^verbatim>\<open>Depends:\<close>
  lines that \<^verbatim>\<open>apt-cache depends\<close> prints for it, as \<^verbatim>\<open>get_deps\<close> reads them.
\<close>

definition direct_deps :: "world \<Rightarrow> string \<Rightarrow> error + pyset" where
  "direct_deps w package =
     collect_deps
       (str_splitlines (stdout (subprocess_run w [''apt-cache'', ''depends'', package]))) []"

text \<open>
  A query fails when \<^verbatim>\<open>apt-cache\<close> ends with a status other than 0 and prints nothing
  on the standard output, as it does for a package it does not know (status 100 and an
  error message on the standard error).
\<close>

definition query_failed :: "world \<Rightarrow> string \<Rightarrow> bool" where
  "query_failed w p \<longleftrightarrow>
     returncode (subprocess_run w [''apt-cache'', ''depends'', p]) \<noteq> 0 \<and>
     stdout (subprocess_run w [''apt-cache'', ''depends'', p]) = []"

text \<open>
  \<open>within w n a q\<close>: the package \<open>q\<close> is \<open>a\<close> or is reached from \<open>a\<close> in at most \<open>n\<close>
  steps, each from a package to one of the dependencies that the metadata source answers
  for it.
\<close>

fun within :: "world \<Rightarrow> nat \<Rightarrow> string \<Rightarrow> string \<Rightarrow> bool" where
  "within w 0 a q \<longleftrightarrow> q = a"
| "within w (Suc n) a q \<longleftrightarrow>
     q = a \<or> (case direct_deps w a of Inl err \<Rightarrow> False | Inr ds \<Rightarrow> (\<exists>b \<in> set ds. within w n b q))"

text \<open>
  Two conditions on a package \<open>q\<close> and a depth \<open>lvl q\<close> given to it. \<open>level_ok\<close>: the
  depth is between \<open>lo\<close> and the maximum depth, and below the maximum depth all the
  dependencies of \<open>q\<close> are in \<open>V\<close>. \<open>has_parent\<close>: \<open>q\<close> is a dependency of a package of
  \<open>N\<close> whose depth is one less.
\<close>

definition level_ok :: "world \<Rightarrow> int \<Rightarrow> (string \<Rightarrow> int) \<Rightarrow> int \<Rightarrow> string set \<Rightarrow> string \<Rightarrow> bool" where
  "level_ok w max_depth lvl lo V q \<longleftrightarrow>
     lo \<le> lvl q \<and> lvl q \<le> max_depth \<and>
     (lvl q < max_depth \<longrightarrow> (\<forall>ds. direct_deps w q = Inr ds \<longrightarrow> set ds \<subseteq> V))"

definition has_parent :: "world \<Rightarrow> (string \<Rightarrow> int) \<Rightarrow> string set \<Rightarrow> string \<Rightarrow> bool" where
  "has_parent w lvl N q \<longleftrightarrow>
     (\<exists>r \<in> N. \<exists>rs. direct_deps w r = Inr rs \<and> q \<in> set rs \<and> lvl q = lvl r + 1)"

section \<open>\<^verbatim>\<open>build_puml_graph\<close>\<close>

definition edge_line :: "string \<Rightarrow> string \<Rightarrow> string" where
  "edge_line package dep =
     [CHR 0x22] @ package @ [CHR 0x22] @ '' --> '' @ [CHR 0x22] @ dep @ [CHR 0x22, CHR 0x0A]"

definition build_puml_graph :: "world \<Rightarrow> pyset pydict \<Rightarrow> string" where
  "build_puml_graph w dependencies' =
     (let graph = ''@startuml'' @ [CHR 0x0A];
          graph = fold (\<lambda>(package, deps) graph.
                     fold (\<lambda>dep graph. graph @ edge_line package dep) (set_order w deps) graph)
                   dependencies' graph
      in graph @ ''@enduml'')"

text \<open>
  The pairs of a package and one of its dependencies, in the order in which the two loops
  of \<^verbatim>\<open>build_puml_graph\<close> meet them.
\<close>

definition edges :: "world \<Rightarrow> pyset pydict \<Rightarrow> (string \<times> string) list" where
  "edges w g = concat (map (\<lambda>(package, deps). map (Pair package) (set_order w deps)) g)"

text \<open>A name without any of the characters at which \<^verbatim>\<open>splitlines\<close> ends a line.\<close>

definition no_break :: "string \<Rightarrow> bool" where
  "no_break s \<longleftrightarrow> (\<forall>c \<in> set s. \<not> is_linebreak c)"

section \<open>\<^verbatim>\<open>render_graph\<close> and \<^verbatim>\<open>main\<close>\<close>

text \<open>
  What one run of the program leaves behind: its exit status, what it printed on the
  standard output and on the standard error, and the files it wrote. An exception that
  nothing catches ends the run with a traceback: that is \<open>Inl\<close>.
\<close>

record outcome =
  exit_status :: int
  printed :: string
  printed_err :: string
  written :: "(string \<times> string) list"

text \<open>The command-line arguments, as \<^verbatim>\<open>argparse\<close> hands them to \<^verbatim>\<open>main\<close>.\<close>

record args =
  arg_plantuml_path :: string
  arg_package :: string
  arg_output :: string
  arg_depth :: int
  arg_repo :: string

text \<open>
  \<^verbatim>\<open>render_graph\<close> returns nothing; when the renderer fails it prints a message on the
  standard error and leaves through \<^verbatim>\<open>sys.exit(1)\<close>: the model returns that message.
\<close>

definition render_graph :: "world \<Rightarrow> string \<Rightarrow> string \<Rightarrow> string \<Rightarrow> string option" where
  "render_graph w puml_path output_path plantuml_path =
     (let result = subprocess_run w
                     [plantuml_path, puml_path, ''-tpng'', ''-o'', path_parent w output_path]
      in if returncode result \<noteq> 0
         then Some (''Error during PlantUML rendering: '' @ stderr result @ [CHR 0x0A])
         else None)"

definition main :: "world \<Rightarrow> args \<Rightarrow> error + outcome" where
  "main w a =
     (case fetch_dependencies w (arg_package a) (arg_depth a) (arg_repo a) of
        Inl err \<Rightarrow> Inl err
      | Inr dependencies' \<Rightarrow>
          (if dependencies' = []
           then Inr \<lparr>exit_status = 1, printed = [],
                     printed_err =
                       ''No dependencies found for package '' @ arg_package a @ [CHR 0x0A],
                     written = []\<rparr>
           else
             (let puml_content = build_puml_graph w dependencies'
              in (case path_with_suffix w (arg_output a) ''.puml'' of
                    Inl err \<Rightarrow> Inl err
                  | Inr puml_path \<Rightarrow>
                      (case render_graph w puml_path (arg_output a) (arg_plantuml_path a) of
                         Some message \<Rightarrow>
                           Inr \<lparr>exit_status = 1, printed = [], printed_err = message,
                                written = [(puml_path, puml_content)]\<rparr>
                       | None \<Rightarrow>
                           Inr \<lparr>exit_status = 0,
                                printed =
                                  ''Graph successfully saved to '' @ arg_output a @ [CHR 0x0A],
                                printed_err = [],
                                written = [(puml_path, puml_content)]\<rparr>)))))"


text \<open>
  The state between two calls of \<^verbatim>\<open>get_deps\<close>: the keys of the dictionary are the
  visited packages, each entered once, in the order of the queries, and each with the
  answer of the metadata source.
\<close>

definition state_ok :: "world \<Rightarrow> fetch_state \<Rightarrow> bool" where
  "state_ok w s \<longleftrightarrow>
     distinct (map fst (dependencies s)) \<and>
     set (map fst (dependencies s)) = visited s \<and>
     calls s = map (\<lambda>p. [''apt-cache'', ''depends'', p]) (map fst (dependencies s)) \<and>
     (\<forall>(p, ds) \<in> set (dependencies s). direct_deps w p = Inr ds)"

section \<open>Example worlds\<close>

text \<open>
  A world given by a table from command lines to what they print: a command of the table
  succeeds; any other fails the way \<^verbatim>\<open>apt-cache depends\<close> fails on a package it does
  not know, with status 100 and nothing on the standard output. Sets are met in
  insertion order.
\<close>

definition table_world :: "(string list \<times> string) list \<Rightarrow> world" where
  "table_world table =
     \<lparr>subprocess_run = (\<lambda>argv. case map_of table argv of
                           Some text \<Rightarrow> \<lparr>returncode = 0, stdout = text, stderr = []\<rparr>
                         | None \<Rightarrow> \<lparr>returncode = 100, stdout = [],
                                     stderr = ''E: No packages found'' @ [CHR 0x0A]\<rparr>),
      set_order = (\<lambda>xs. xs),
      path_with_suffix = (\<lambda>path suffix. Inr (takeWhile (\<lambda>c. c \<noteq> CHR ''.'') path @ suffix)),
      path_parent = (\<lambda>path. ''.'')\<rparr>"

text \<open>\<open>A\<close> depends on \<open>B\<close> and \<open>B\<close> on \<open>A\<close>.\<close>

definition cycle_table :: "(string list \<times> string) list" where
  "cycle_table =
     [([''apt-cache'', ''depends'', ''A''], ''A'' @ [CHR 0x0A] @ ''  Depends: B'' @ [CHR 0x0A]),
      ([''apt-cache'', ''depends'', ''B''], ''B'' @ [CHR 0x0A] @ ''  Depends: A'' @ [CHR 0x0A])]"

text \<open>\<open>A\<close> depends on itself.\<close>

definition self_table :: "(string list \<times> string) list" where
  "self_table =
     [([''apt-cache'', ''depends'', ''A''], ''A'' @ [CHR 0x0A] @ ''  Depends: A'' @ [CHR 0x0A])]"

text \<open>
  \<open>app\<close> depends on \<open>libfoo\<close> and \<open>libbar\<close>, \<open>libbar\<close> on \<open>libfoo\<close>, and \<open>libfoo\<close> on
  nothing.
\<close>

definition app_table :: "(string list \<times> string) list" where
  "app_table =
     [([''apt-cache'', ''depends'', ''app''],
       ''app'' @ [CHR 0x0A] @ ''  Depends: libfoo'' @ [CHR 0x0A] @ ''  Depends: libbar'' @ [CHR 0x0A]),
      ([''apt-cache'', ''depends'', ''libfoo''], ''libfoo'' @ [CHR 0x0A]),
      ([''apt-cache'', ''depends'', ''libbar''],
       ''libbar'' @ [CHR 0x0A] @ ''  Depends: libfoo'' @ [CHR 0x0A])]"

text \<open>
  \<open>app\<close> depends on \<open>libghost\<close>, which \<^verbatim>\<open>apt-cache\<close> does not know, and on \<open>libbar\<close>,
  which depends on nothing.
\<close>

definition ghost_table :: "(string list \<times> string) list" where
  "ghost_table =
     [([''apt-cache'', ''depends'', ''app''],
       ''app'' @ [CHR 0x0A] @ ''  Depends: libghost'' @ [CHR 0x0A] @ ''  Depends: libbar'' @ [CHR 0x0A]),
      ([''apt-cache'', ''depends'', ''libbar''], ''libbar'' @ [CHR 0x0A])]"

text \<open>
  \<open>A\<close> depends on \<open>X\<close>, which \<^verbatim>\<open>apt-cache\<close> does not know, on \<open>B\<close> and on \<open>C\<close>; \<open>B\<close> depends
  on \<open>C\<close>, \<open>C\<close> on \<open>D\<close>, and \<open>D\<close> on nothing.
\<close>

definition deep_table :: "(string list \<times> string) list" where
  "deep_table =
     [([''apt-cache'', ''depends'', ''A''],
       ''A'' @ [CHR 0x0A] @ ''  Depends: X'' @ [CHR 0x0A] @ ''  Depends: B'' @ [CHR 0x0A]
         @ ''  Depends: C'' @ [CHR 0x0A]),
      ([''apt-cache'', ''depends'', ''B''], ''B'' @ [CHR 0x0A] @ ''  Depends: C'' @ [CHR 0x0A]),
      ([''apt-cache'', ''depends'', ''C''], ''C'' @ [CHR 0x0A] @ ''  Depends: D'' @ [CHR 0x0A]),
      ([''apt-cache'', ''depends'', ''D''], ''D'' @ [CHR 0x0A])]"

text \<open>No package is known; the renderer, called for \<^verbatim>\<open>out.png\<close>, succeeds.\<close>

definition render_table :: "(string list \<times> string) list" where
  "render_table = [([''plantuml'', ''out.puml'', ''-tpng'', ''-o'', ''.''], [])]"

section \<open>The parser never raises\<close>

lemma split_from_nonempty: "split_from sep acc s \<noteq> []"
  by (induction sep acc s rule: split_from.induct) auto

lemma split_from_two:
  "sep \<noteq> [] \<Longrightarrow> s = u @ sep @ v \<Longrightarrow> 2 \<le> length (split_from sep acc s)"
proof (induction sep acc s arbitrary: u rule: split_from.induct)
  case (1 sep acc)
  then show ?case by simp
next
  case (2 sep acc c cs)
  show ?case
  proof (cases "take (length sep) (c # cs) = sep")
    case True
    have "1 \<le> length (split_from sep [] (drop (length sep - 1) cs))"
      using split_from_nonempty [of sep "[]" "drop (length sep - 1) cs"]
      by (cases "split_from sep [] (drop (length sep - 1) cs)") auto
    with True show ?thesis by simp
  next
    case False
    have "u \<noteq> []"
    proof
      assume "u = []"
      with "2.prems" have "take (length sep) (c # cs) = sep" by simp
      with False show False by simp
    qed
    then obtain u' where u: "u = c # u'" and cs: "cs = u' @ sep @ v"
      using "2.prems" by (cases u) auto
    from "2.IH"(2) [OF False "2.prems"(1) cs] False show ?thesis by simp
  qed
qed

lemma strip_occurs:
  assumes "str_startswith (str_strip line) sep"
  shows "\<exists>u v. line = u @ sep @ v"
proof -
  let ?t = "dropWhile is_space line"
  let ?x = "rev (dropWhile is_space (rev ?t))"
  have x: "?x = sep @ drop (length sep) ?x"
    using assms append_take_drop_id [of "length sep" ?x]
    by (simp add: str_startswith_def str_strip_def)
  have t: "?t = ?x @ rev (takeWhile is_space (rev ?t))"
    using takeWhile_dropWhile_id [of is_space "rev ?t"]
    by (metis rev_append rev_rev_ident)
  have "line = takeWhile is_space line @ ?t" by simp
  with t x show ?thesis by (metis append.assoc)
qed

lemma collect_deps_total: "\<exists>ds. collect_deps lines acc = Inr ds"
proof (induction lines arbitrary: acc)
  case Nil
  then show ?case by simp
next
  case (Cons line lines)
  show ?case
  proof (cases "str_startswith (str_strip line) ''Depends:''")
    case True
    then obtain u v where "line = u @ ''Depends:'' @ v" using strip_occurs by blast
    then have "2 \<le> length (split_from ''Depends:'' [] line)"
      using split_from_two [of "''Depends:''" line u v "[]"] by simp
    then show ?thesis using True Cons.IH by (simp add: str_split_def item_def)
  next
    case False
    then show ?thesis using Cons.IH by simp
  qed
qed

section \<open>The traversal\<close>

declare get_deps.simps [simp del]

lemma direct_deps_total: "\<exists>ds. direct_deps w p = Inr ds"
  unfolding direct_deps_def by (rule collect_deps_total)

lemma get_deps_stop:
  "current_depth > max_depth \<or> package \<in> visited s \<Longrightarrow>
   get_deps w max_depth package current_depth s = Inr s"
  by (simp add: get_deps.simps)

lemma get_deps_expand:
  assumes "\<not> (current_depth > max_depth \<or> package \<in> visited s)"
    and "direct_deps w package = Inr ds"
  shows "get_deps w max_depth package current_depth s =
     for_each (\<lambda>dep. get_deps w max_depth dep (current_depth + 1)) (set_order w ds)
       (s\<lparr>visited := insert package (visited s),
          calls := calls s @ [[''apt-cache'', ''depends'', package]],
          dependencies := dict_set package ds (dependencies s)\<rparr>)"
  using assms by (subst get_deps.simps) (simp add: direct_deps_def Let_def)

lemma dict_set_fresh: "k \<notin> fst ` set d \<Longrightarrow> dict_set k v d = d @ [(k, v)]"
  by (induction d) auto

lemma for_each_invariant:
  assumes "for_each body xs s = Inr s'" and "I s"
    and "\<And>x u u'. x \<in> set xs \<Longrightarrow> I u \<Longrightarrow> body x u = Inr u' \<Longrightarrow> I u'"
  shows "I s'"
  using assms
proof (induction xs arbitrary: s)
  case Nil
  then show ?case by simp
next
  case (Cons x xs)
  from Cons.prems(1) obtain u where u: "body x s = Inr u" and rest: "for_each body xs u = Inr s'"
    by (auto split: sum.splits)
  have "I u" using Cons.prems(2,3) u by (meson list.set_intros(1))
  then show ?case using Cons.IH [OF rest] Cons.prems(3) by (meson list.set_intros(2))
qed

lemma for_each_total:
  assumes "\<And>x u. x \<in> set xs \<Longrightarrow> \<exists>u'. body x u = Inr u'"
  shows "\<exists>s'. for_each body xs s = Inr s'"
  using assms
proof (induction xs arbitrary: s)
  case Nil
  then show ?case by simp
next
  case (Cons x xs)
  then obtain u where "body x s = Inr u" by (meson list.set_intros(1))
  moreover have "\<exists>s'. for_each body xs u = Inr s'"
    using Cons.IH Cons.prems by (meson list.set_intros(2))
  ultimately show ?case by simp
qed

lemma state_ok_step:
  assumes "state_ok w s" and "package \<notin> visited s" and "direct_deps w package = Inr ds"
  shows "state_ok w (s\<lparr>visited := insert package (visited s),
          calls := calls s @ [[''apt-cache'', ''depends'', package]],
          dependencies := dict_set package ds (dependencies s)\<rparr>)"
proof -
  have fresh: "package \<notin> fst ` set (dependencies s)"
    using assms(1,2) by (simp add: state_ok_def)
  show ?thesis
    using assms fresh by (auto simp: state_ok_def dict_set_fresh)
qed

lemma get_deps_total: "\<exists>s'. get_deps w max_depth package current_depth s = Inr s'"
proof (induction w max_depth package current_depth s rule: get_deps.induct)
  case (1 w max_depth package current_depth s)
  show ?case
  proof (cases "current_depth > max_depth \<or> package \<in> visited s")
    case True
    then show ?thesis by (simp add: get_deps_stop)
  next
    case False
    obtain ds where ds: "direct_deps w package = Inr ds" using direct_deps_total by blast
    have "\<exists>u'. get_deps w max_depth dep (current_depth + 1) u = Inr u'"
      if "dep \<in> set (set_order w ds)" for dep u
      using "1.IH" [OF False refl refl refl refl refl _ that] ds
      by (simp add: direct_deps_def)
    then show ?thesis
      unfolding get_deps_expand [OF False ds] by (rule for_each_total)
  qed
qed

lemma get_deps_state_ok:
  "state_ok w s \<Longrightarrow> get_deps w max_depth package current_depth s = Inr s' \<Longrightarrow>
   state_ok w s' \<and> visited s \<subseteq> visited s'"
proof (induction w max_depth package current_depth s arbitrary: s' rule: get_deps.induct)
  case (1 w max_depth package current_depth s)
  show ?case
  proof (cases "current_depth > max_depth \<or> package \<in> visited s")
    case True
    then show ?thesis using "1.prems" by (simp add: get_deps_stop)
  next
    case False
    obtain ds where ds: "direct_deps w package = Inr ds" using direct_deps_total by blast
    let ?s2 = "s\<lparr>visited := insert package (visited s),
          calls := calls s @ [[''apt-cache'', ''depends'', package]],
          dependencies := dict_set package ds (dependencies s)\<rparr>"
    let ?I = "\<lambda>u. state_ok w u \<and> visited ?s2 \<subseteq> visited u"
    have loop: "for_each (\<lambda>dep. get_deps w max_depth dep (current_depth + 1)) (set_order w ds) ?s2 = Inr s'"
      using "1.prems"(2) get_deps_expand [OF False ds] by simp
    have start: "?I ?s2"
      using state_ok_step [OF "1.prems"(1) _ ds] False by simp
    have "?I s'"
    proof (rule for_each_invariant [where I = ?I, OF loop start])
      fix dep u u'
      assume dep: "dep \<in> set (set_order w ds)" and u: "?I u"
        and run: "get_deps w max_depth dep (current_depth + 1) u = Inr u'"
      have "state_ok w u' \<and> visited u \<subseteq> visited u'"
        using "1.IH" [OF False refl refl refl refl refl _ dep _ run] ds u
        by (simp add: direct_deps_def)
      with u show "?I u'" by auto
    qed
    then show ?thesis by auto
  qed
qed

lemma for_each_skip:
  "(\<And>x u. x \<in> set xs \<Longrightarrow> body x u = Inr u) \<Longrightarrow> for_each body xs s = Inr s"
  by (induction xs arbitrary: s) auto

lemma state_ok_init: "state_ok w \<lparr>dependencies = [], visited = {}, calls = []\<rparr>"
  by (simp add: state_ok_def)

lemma loop_state_ok:
  assumes "state_ok w s"
    and "for_each (\<lambda>dep. get_deps w max_depth dep d) xs s = Inr s'"
  shows "state_ok w s' \<and> visited s \<subseteq> visited s'"
proof -
  let ?I = "\<lambda>u. state_ok w u \<and> visited s \<subseteq> visited u"
  have "?I s'"
  proof (rule for_each_invariant [where I = ?I, OF assms(2)])
    show "?I s" using assms(1) by simp
  next
    fix dep u u'
    assume "?I u" and "get_deps w max_depth dep d u = Inr u'"
    then show "?I u'" using get_deps_state_ok [of w u max_depth dep d u'] by auto
  qed
  then show ?thesis .
qed

lemma get_deps_visits:
  assumes "state_ok w s" and "current_depth \<le> max_depth"
    and "get_deps w max_depth package current_depth s = Inr s'"
  shows "package \<in> visited s'"
proof (cases "package \<in> visited s")
  case True
  then show ?thesis using get_deps_state_ok [OF assms(1,3)] by auto
next
  case False
  then have go: "\<not> (current_depth > max_depth \<or> package \<in> visited s)" using assms(2) by simp
  obtain ds where ds: "direct_deps w package = Inr ds" using direct_deps_total by blast
  let ?s2 = "s\<lparr>visited := insert package (visited s),
          calls := calls s @ [[''apt-cache'', ''depends'', package]],
          dependencies := dict_set package ds (dependencies s)\<rparr>"
  have ok2: "state_ok w ?s2" using state_ok_step [OF assms(1) False ds] .
  have "for_each (\<lambda>dep. get_deps w max_depth dep (current_depth + 1)) (set_order w ds) ?s2 = Inr s'"
    using assms(3) get_deps_expand [OF go ds] by simp
  from loop_state_ok [OF ok2 this] show ?thesis by auto
qed

lemma fetch_run_ok:
  obtains s where "fetch_run w package_name max_depth = Inr s" and "state_ok w s"
proof -
  obtain s where s: "fetch_run w package_name max_depth = Inr s"
    using get_deps_total [of w max_depth package_name 1] by (auto simp: fetch_run_def)
  then have "state_ok w s"
    using get_deps_state_ok [OF state_ok_init, of w max_depth package_name 1 s]
    by (simp add: fetch_run_def)
  with s that show ?thesis by blast
qed

lemma order_ok_single: "order_ok w \<Longrightarrow> set_order w [x] = [x]"
proof -
  assume "order_ok w"
  then have s: "set (set_order w [x]) = {x}" and d: "distinct (set_order w [x])"
    by (simp_all add: order_ok_def)
  show ?thesis
  proof (cases "set_order w [x]")
    case Nil
    with s show ?thesis by simp
  next
    case (Cons y ys)
    with s have y: "y = x" by auto
    have "ys = []"
    proof (cases ys)
      case Nil
      then show ?thesis .
    next
      case (Cons z zs)
      with \<open>set_order w [x] = y # ys\<close> s d y show ?thesis by auto
    qed
    with Cons y show ?thesis by simp
  qed
qed

lemmas eval_defs =
  fetch_dependencies_def fetch_run_def get_deps.simps direct_deps_def table_world_def
  str_splitlines_def str_startswith_def str_strip_def str_split_def item_def set_add_def
  is_space_def is_linebreak_def


section \<open>Properties of the resolver\<close>

text \<open>
  C2. Whatever the maximum depth and whatever the metadata source answers, cyclic or not,
  \<^verbatim>\<open>fetch_dependencies\<close> returns a dictionary and raises nothing (\<open>get_deps\<close> is a total
  function: its recursion ends because the depth grows by one at each call and stops
  above \<open>max_depth\<close>). In the dictionary each package is a key at most once, and each
  package is queried at most once: the command lines run are, in order, the queries for
  the keys.
\<close>

theorem fetch_terminates_keys_once:
  "\<exists>s. fetch_run w package_name max_depth = Inr s \<and>
       fetch_dependencies w package_name max_depth repo_url = Inr (dependencies s) \<and>
       distinct (map fst (dependencies s)) \<and>
       distinct (calls s) \<and>
       calls s = map (\<lambda>p. [''apt-cache'', ''depends'', p]) (map fst (dependencies s))"
proof -
  obtain s where s: "fetch_run w package_name max_depth = Inr s" and ok: "state_ok w s"
    by (rule fetch_run_ok)
  have keys: "distinct (map fst (dependencies s))"
    and calls: "calls s = map (\<lambda>p. [''apt-cache'', ''depends'', p]) (map fst (dependencies s))"
    using ok by (simp_all add: state_ok_def)
  have "inj_on (\<lambda>p::string. [''apt-cache'', ''depends'', p]) (set (map fst (dependencies s)))"
    by (simp add: inj_on_def)
  with keys have "distinct (map (\<lambda>p. [''apt-cache'', ''depends'', p]) (map fst (dependencies s)))"
    by (subst distinct_map) (rule conjI)
  then have "distinct (calls s)" by (simp only: calls)
  with s keys calls show ?thesis by (simp add: fetch_dependencies_def)
qed

text \<open>
  C3, as amended. With \<open>max_depth = 1\<close> the dictionary has exactly one key, the starting
  package, with its direct dependencies as the value, and the only command run is the
  query for the starting package: no dependency is expanded. A dependency is therefore a
  key only when it is the starting package itself.
\<close>

theorem depth_one_single_key:
  "\<exists>ds. direct_deps w package_name = Inr ds \<and>
        fetch_dependencies w package_name 1 repo_url = Inr [(package_name, ds)] \<and>
        fetch_run w package_name 1 =
          Inr \<lparr>dependencies = [(package_name, ds)], visited = {package_name},
               calls = [[''apt-cache'', ''depends'', package_name]]\<rparr>"
proof -
  obtain ds where ds: "direct_deps w package_name = Inr ds" using direct_deps_total by blast
  let ?s0 = "\<lparr>dependencies = [], visited = {}, calls = []\<rparr>"
  have "get_deps w 1 package_name 1 ?s0 =
      for_each (\<lambda>dep. get_deps w 1 dep (1 + 1)) (set_order w ds)
       (?s0\<lparr>visited := insert package_name (visited ?s0),
          calls := calls ?s0 @ [[''apt-cache'', ''depends'', package_name]],
          dependencies := dict_set package_name ds (dependencies ?s0)\<rparr>)"
    by (rule get_deps_expand [OF _ ds]) simp
  also have "\<dots> = Inr \<lparr>dependencies = [(package_name, ds)], visited = {package_name},
               calls = [[''apt-cache'', ''depends'', package_name]]\<rparr>"
    by (subst for_each_skip) (simp_all add: get_deps_stop)
  finally show ?thesis using ds by (simp add: fetch_dependencies_def fetch_run_def)
qed

text \<open>
  C3 as stated fails for a package that depends on itself: with \<open>max_depth = 1\<close> the
  dictionary is \<open>{A: {A}}\<close>, so the dependency \<open>A\<close> of \<open>A\<close> is a key.
\<close>

theorem depth_one_self_dependency:
  "fetch_dependencies (table_world self_table) ''A'' 1 [] = Inr [(''A'', [''A''])] \<and>
   direct_deps (table_world self_table) ''A'' = Inr [''A''] \<and>
   ''A'' \<in> set [''A''] \<and> ''A'' \<in> fst ` set [(''A'', [''A''])]"
  by (simp add: eval_defs self_table_def)

text \<open>
  C4. When \<open>a\<close> depends on \<open>b\<close> alone and \<open>b\<close> on \<open>a\<close> alone, resolving from \<open>a\<close> with a
  maximum depth of at least 2 (5 in the witness) gives exactly \<open>{a: {b}, b: {a}}\<close>.
\<close>

theorem cycle_two_keys:
  assumes "order_ok w" and "a \<noteq> b" and "2 \<le> max_depth"
    and "direct_deps w a = Inr [b]" and "direct_deps w b = Inr [a]"
  shows "fetch_dependencies w a max_depth repo_url = Inr [(a, [b]), (b, [a])]"
proof -
  let ?s0 = "\<lparr>dependencies = [], visited = {}, calls = []\<rparr>"
  let ?s1 = "\<lparr>dependencies = [(a, [b])], visited = {a}, calls = [[''apt-cache'', ''depends'', a]]\<rparr>"
  let ?s2 = "\<lparr>dependencies = [(a, [b]), (b, [a])], visited = {b, a},
              calls = [[''apt-cache'', ''depends'', a], [''apt-cache'', ''depends'', b]]\<rparr>"
  have third: "get_deps w max_depth a (2 + 1) ?s2 = Inr ?s2"
    by (simp add: get_deps_stop)
  have "get_deps w max_depth b (1 + 1) ?s1
      = for_each (\<lambda>dep. get_deps w max_depth dep (1 + 1 + 1)) (set_order w [a])
         (?s1\<lparr>visited := insert b (visited ?s1),
          calls := calls ?s1 @ [[''apt-cache'', ''depends'', b]],
          dependencies := dict_set b [a] (dependencies ?s1)\<rparr>)"
    by (rule get_deps_expand [OF _ assms(5)]) (use assms(2,3) in auto)
  then have second: "get_deps w max_depth b (1 + 1) ?s1 = Inr ?s2"
    using third assms(1,2) by (simp add: order_ok_single)
  have "get_deps w max_depth a 1 ?s0
      = for_each (\<lambda>dep. get_deps w max_depth dep (1 + 1)) (set_order w [b])
         (?s0\<lparr>visited := insert a (visited ?s0),
          calls := calls ?s0 @ [[''apt-cache'', ''depends'', a]],
          dependencies := dict_set a [b] (dependencies ?s0)\<rparr>)"
    by (rule get_deps_expand [OF _ assms(4)]) (use assms(3) in auto)
  then have "get_deps w max_depth a 1 ?s0 = Inr ?s2"
    using second assms(1) by (simp add: order_ok_single)
  then show ?thesis by (simp add: fetch_dependencies_def fetch_run_def)
qed

theorem cycle_two_keys_witness:
  "order_ok (table_world cycle_table) \<and> ''A'' \<noteq> ''B'' \<and> (2::int) \<le> 5 \<and>
   direct_deps (table_world cycle_table) ''A'' = Inr [''B''] \<and>
   direct_deps (table_world cycle_table) ''B'' = Inr [''A''] \<and>
   fetch_dependencies (table_world cycle_table) ''A'' 5 [] = Inr [(''A'', [''B'']), (''B'', [''A''])]"
proof -
  have ord: "order_ok (table_world cycle_table)"
    by (simp add: order_ok_def table_world_def)
  have ab: "''A'' \<noteq> ''B''" by simp
  have depth: "(2::int) \<le> 5" by simp
  have da: "direct_deps (table_world cycle_table) ''A'' = Inr [''B'']"
    by (simp add: eval_defs cycle_table_def)
  have db: "direct_deps (table_world cycle_table) ''B'' = Inr [''A'']"
    by (simp add: eval_defs cycle_table_def)
  show ?thesis
    using ord ab depth da db cycle_two_keys [OF ord ab depth da db, of "[]"] by simp
qed

text \<open>
  C7. With a maximum depth of zero or less the dictionary returned is empty, whatever the
  starting package and the metadata source.
\<close>

theorem depth_nonpositive_empty:
  "max_depth \<le> 0 \<Longrightarrow> fetch_dependencies w package_name max_depth repo_url = Inr []"
  by (simp add: fetch_dependencies_def fetch_run_def get_deps_stop)

theorem depth_nonpositive_empty_witness:
  "(0::int) \<le> 0 \<and> fetch_dependencies (table_world cycle_table) ''A'' 0 [] = Inr [] \<and>
   (-3::int) \<le> 0 \<and> fetch_dependencies (table_world cycle_table) ''A'' (-3) [] = Inr []"
  using depth_nonpositive_empty [of 0 "table_world cycle_table" "''A''" "[]"]
    depth_nonpositive_empty [of "-3" "table_world cycle_table" "''A''" "[]"]
  by simp

text \<open>
  C8. Every package visited during resolution is a key of the dictionary returned, with
  the answer of the metadata source as its value: a visited package without dependencies
  is mapped to the empty set.
\<close>

theorem visited_is_key:
  "\<exists>s. fetch_run w package_name max_depth = Inr s \<and>
       fetch_dependencies w package_name max_depth repo_url = Inr (dependencies s) \<and>
       (\<forall>p \<in> visited s. \<exists>ds. direct_deps w p = Inr ds \<and> map_of (dependencies s) p = Some ds)"
proof -
  obtain s where s: "fetch_run w package_name max_depth = Inr s" and ok: "state_ok w s"
    by (rule fetch_run_ok)
  have "\<exists>ds. direct_deps w p = Inr ds \<and> map_of (dependencies s) p = Some ds"
    if "p \<in> visited s" for p
  proof -
    have "p \<in> fst ` set (dependencies s)" using that ok by (simp add: state_ok_def)
    then obtain ds where in_g: "(p, ds) \<in> set (dependencies s)" by force
    have "distinct (map fst (dependencies s))" using ok by (simp add: state_ok_def)
    then have "map_of (dependencies s) p = Some ds" using in_g by simp
    moreover have "direct_deps w p = Inr ds" using ok in_g by (auto simp: state_ok_def)
    ultimately show ?thesis by simp
  qed
  with s show ?thesis by (simp add: fetch_dependencies_def)
qed

theorem visited_is_key_witness:
  "\<exists>s. fetch_run (table_world app_table) ''app'' 2 = Inr s \<and>
       ''libfoo'' \<in> visited s \<and>
       direct_deps (table_world app_table) ''libfoo'' = Inr [] \<and>
       map_of (dependencies s) ''libfoo'' = Some []"
proof -
  obtain s where s: "fetch_run (table_world app_table) ''app'' 2 = Inr s"
    and keys: "\<forall>p \<in> visited s. \<exists>ds. direct_deps (table_world app_table) p = Inr ds \<and>
                 map_of (dependencies s) p = Some ds"
    using visited_is_key [of "table_world app_table" "''app''" 2 "[]"] by blast
  have run: "fetch_run (table_world app_table) ''app'' 2 =
      Inr \<lparr>dependencies = [(''app'', [''libfoo'', ''libbar'']), (''libfoo'', []),
                            (''libbar'', [''libfoo''])],
           visited = {''libbar'', ''libfoo'', ''app''},
           calls = [[''apt-cache'', ''depends'', ''app''], [''apt-cache'', ''depends'', ''libfoo''],
                    [''apt-cache'', ''depends'', ''libbar'']]\<rparr>"
    by (simp add: eval_defs app_table_def)
  have visited: "''libfoo'' \<in> visited s" using s run by auto
  have none: "direct_deps (table_world app_table) ''libfoo'' = Inr []"
    by (simp add: eval_defs app_table_def)
  from keys visited none have "map_of (dependencies s) ''libfoo'' = Some []" by force
  with s visited none show ?thesis by blast
qed

text \<open>
  C9. \<^verbatim>\<open>fetch_dependencies\<close> never reads its \<open>repo_url\<close> argument: two calls that differ
  in it alone return the same dictionary, and two runs of \<^verbatim>\<open>main\<close> that differ in
  \<^verbatim>\<open>--repo\<close> alone end the same way.
\<close>

theorem repo_url_unused:
  "fetch_dependencies w package_name max_depth repo_url =
   fetch_dependencies w package_name max_depth repo_url' \<and>
   main w (a\<lparr>arg_repo := repo_url\<rparr>) = main w (a\<lparr>arg_repo := repo_url'\<rparr>)"
  by (simp add: fetch_dependencies_def main_def Let_def split: sum.split option.split)

text \<open>
  C10. With a maximum depth of at least 1 the dictionary returned has the starting
  package as a key, whatever the metadata source answers, so it is not empty, and
  \<^verbatim>\<open>main\<close> does not end in its branch for an empty dictionary (exit status 1 with the
  message \<^verbatim>\<open>No dependencies found for package\<close> and no file written).
\<close>

theorem start_is_key:
  assumes "1 \<le> max_depth"
  shows "\<exists>g. fetch_dependencies w package_name max_depth repo_url = Inr g \<and>
           package_name \<in> fst ` set g \<and> g \<noteq> [] \<and>
           main w \<lparr>arg_plantuml_path = plantuml, arg_package = package_name,
                   arg_output = out, arg_depth = max_depth, arg_repo = repo_url\<rparr>
           \<noteq> Inr \<lparr>exit_status = 1, printed = [],
                   printed_err = ''No dependencies found for package '' @ package_name @ [CHR 0x0A],
                   written = []\<rparr>"
proof -
  obtain s where s: "fetch_run w package_name max_depth = Inr s" and ok: "state_ok w s"
    by (rule fetch_run_ok)
  have "package_name \<in> visited s"
    using get_deps_visits [OF state_ok_init assms, of w package_name s] s
    by (simp add: fetch_run_def)
  then have key: "package_name \<in> fst ` set (dependencies s)"
    using ok by (simp add: state_ok_def)
  then have ne: "dependencies s \<noteq> []" by auto
  have g: "fetch_dependencies w package_name max_depth repo_url = Inr (dependencies s)"
    using s by (simp add: fetch_dependencies_def)
  have "main w \<lparr>arg_plantuml_path = plantuml, arg_package = package_name,
                   arg_output = out, arg_depth = max_depth, arg_repo = repo_url\<rparr>
           \<noteq> Inr \<lparr>exit_status = 1, printed = [],
                   printed_err = ''No dependencies found for package '' @ package_name @ [CHR 0x0A],
                   written = []\<rparr>"
    using g ne by (simp add: main_def Let_def split: sum.splits option.splits)
  with g key ne show ?thesis by simp
qed

theorem start_is_key_witness:
  "(1::int) \<le> 3 \<and>
   fetch_dependencies (table_world []) ''nosuch'' 3 [] = Inr [(''nosuch'', [])] \<and>
   main (table_world []) \<lparr>arg_plantuml_path = ''plantuml'', arg_package = ''nosuch'',
                           arg_output = ''out.png'', arg_depth = 3, arg_repo = []\<rparr>
     \<noteq> Inr \<lparr>exit_status = 1, printed = [],
             printed_err = ''No dependencies found for package '' @ ''nosuch'' @ [CHR 0x0A],
             written = []\<rparr>"
proof -
  have depth: "(1::int) \<le> 3" by simp
  have run: "fetch_dependencies (table_world []) ''nosuch'' 3 [] = Inr [(''nosuch'', [])]"
    by (simp add: eval_defs)
  from start_is_key [OF depth, of "table_world []" "''nosuch''" "[]" "''plantuml''" "''out.png''"]
  show ?thesis using depth run by simp
qed


section \<open>Properties of the serializer\<close>

lemma fold_edge_lines:
  "fold (\<lambda>dep graph. graph @ edge_line package dep) xs graph
   = graph @ concat (map (edge_line package) xs)"
  by (induction xs arbitrary: graph) auto

lemma fold_packages:
  "fold (\<lambda>(package, deps) graph.
           fold (\<lambda>dep graph. graph @ edge_line package dep) (set_order w deps) graph) g graph
   = graph @ concat (map (\<lambda>(p, d). edge_line p d) (edges w g))"
proof (induction g arbitrary: graph)
  case Nil
  then show ?case by (simp add: edges_def)
next
  case (Cons item g)
  obtain package deps where item: "item = (package, deps)" by (cases item)
  have "map (\<lambda>(p, d). edge_line p d) (map (Pair package) (set_order w deps))
        = map (edge_line package) (set_order w deps)"
    by simp
  then show ?case
    using Cons.IH by (simp add: item edges_def fold_edge_lines comp_def)
qed

lemma build_puml_graph_edges:
  "build_puml_graph w g =
     ''@startuml'' @ [CHR 0x0A] @ concat (map (\<lambda>(p, d). edge_line p d) (edges w g)) @ ''@enduml''"
  by (simp add: build_puml_graph_def fold_packages)

lemma edges_Nil: "edges w [] = []"
  by (simp add: edges_def)

lemma edges_Cons: "edges w ((package, deps) # g) = map (Pair package) (set_order w deps) @ edges w g"
  by (simp add: edges_def)

lemma set_edges:
  assumes "order_ok w"
  shows "\<forall>(p, ds) \<in> set g. distinct ds \<Longrightarrow>
    set (edges w g) = {(p, d). \<exists>ds. (p, ds) \<in> set g \<and> d \<in> set ds}"
proof (induction g)
  case Nil
  then show ?case by (simp add: edges_Nil)
next
  case (Cons item g)
  obtain package deps where item: "item = (package, deps)" by (cases item)
  have "distinct deps" using Cons.prems item by simp
  then have here: "set (set_order w deps) = set deps"
    using assms by (simp add: order_ok_def)
  have rest: "set (edges w g) = {(p, d). \<exists>ds. (p, ds) \<in> set g \<and> d \<in> set ds}"
    using Cons by simp
  show ?case
    unfolding item edges_Cons set_append rest set_map here by auto
qed

lemma length_edges:
  assumes "order_ok w" and "\<forall>(p, ds) \<in> set g. distinct ds"
  shows "length (edges w g) = (\<Sum>(p, ds) \<leftarrow> g. card (set ds))"
  using assms(2)
proof (induction g)
  case Nil
  then show ?case by (simp add: edges_def)
next
  case (Cons item g)
  obtain package deps where item: "item = (package, deps)" by (cases item)
  have d: "distinct deps" using Cons.prems item by simp
  then have "set (set_order w deps) = set deps" and "distinct (set_order w deps)"
    using assms(1) by (simp_all add: order_ok_def)
  then have "length (set_order w deps) = card (set deps)"
    by (metis distinct_card)
  moreover have "length (edges w g) = (\<Sum>(p, ds) \<leftarrow> g. card (set ds))"
    using Cons by simp
  ultimately show ?case by (simp add: item edges_def)
qed

lemma edges_keys: "(p, d) \<in> set (edges w g) \<Longrightarrow> p \<in> fst ` set g"
proof (induction g)
  case Nil
  then show ?case by (simp add: edges_Nil)
next
  case (Cons item g)
  obtain package deps where item: "item = (package, deps)" by (cases item)
  from Cons show ?case unfolding item edges_Cons by auto
qed

lemma distinct_edges:
  assumes "order_ok w"
  shows "distinct (map fst g) \<Longrightarrow> \<forall>(p, ds) \<in> set g. distinct ds \<Longrightarrow> distinct (edges w g)"
proof (induction g)
  case Nil
  then show ?case by (simp add: edges_def)
next
  case (Cons item g)
  obtain package deps where item: "item = (package, deps)" by (cases item)
  have "distinct deps" using Cons.prems item by simp
  then have here: "distinct (map (Pair package) (set_order w deps))"
    using assms by (simp add: order_ok_def distinct_map inj_on_def)
  have rest: "distinct (edges w g)" using Cons by simp
  have fresh: "package \<notin> fst ` set g" using Cons.prems(1) item by simp
  have "set (map (Pair package) (set_order w deps)) \<inter> set (edges w g) = {}"
    using fresh edges_keys [of _ _ w g] by auto
  with here rest show ?case by (simp add: item edges_def)
qed

lemma linebreak_LF: "is_linebreak (CHR 0x0A)"
  by (simp add: is_linebreak_def)

lemma linebreak_CR: "is_linebreak (CHR 0x0D)"
  by (simp add: is_linebreak_def)

lemma lines_from_line:
  "no_break l \<Longrightarrow> lines_from acc (l @ CHR 0x0A # rest) = (rev acc @ l) # lines_from [] rest"
proof (induction l arbitrary: acc)
  case Nil
  show ?case
  proof (cases rest)
    case Nil
    then show ?thesis by (simp add: linebreak_LF)
  next
    case (Cons d cs)
    then show ?thesis by (simp add: linebreak_LF)
  qed
next
  case (Cons x l)
  have x: "\<not> is_linebreak x" and l: "no_break l"
    using Cons.prems by (simp_all add: no_break_def)
  have cr: "x \<noteq> CHR 0x0D" using x linebreak_CR by auto
  obtain d cs where next_chars: "l @ CHR 0x0A # rest = d # cs"
    by (cases "l @ CHR 0x0A # rest") auto
  have "lines_from acc ((x # l) @ CHR 0x0A # rest) = lines_from acc (x # d # cs)"
    using next_chars by simp
  also have "\<dots> = lines_from (x # acc) (d # cs)"
    using x cr by simp
  also have "\<dots> = lines_from (x # acc) (l @ CHR 0x0A # rest)"
    using next_chars by simp
  also have "\<dots> = (rev (x # acc) @ l) # lines_from [] rest"
    using Cons.IH [OF l] .
  finally show ?case by simp
qed

lemma lines_from_lines:
  "\<forall>l \<in> set ls. no_break l \<Longrightarrow>
   lines_from [] (concat (map (\<lambda>l. l @ [CHR 0x0A]) ls) @ rest) = ls @ lines_from [] rest"
proof (induction ls)
  case Nil
  then show ?case by simp
next
  case (Cons l ls)
  have "lines_from [] (concat (map (\<lambda>l. l @ [CHR 0x0A]) (l # ls)) @ rest)
      = lines_from [] (l @ CHR 0x0A # (concat (map (\<lambda>l. l @ [CHR 0x0A]) ls) @ rest))"
    by simp
  also have "\<dots> = (rev [] @ l) # lines_from [] (concat (map (\<lambda>l. l @ [CHR 0x0A]) ls) @ rest)"
    using Cons.prems by (intro lines_from_line) simp
  finally show ?case using Cons by simp
qed

lemma edge_line_text:
  "edge_line p d = ([CHR 0x22] @ p @ [CHR 0x22] @ '' --> '' @ [CHR 0x22] @ d @ [CHR 0x22]) @ [CHR 0x0A]"
  by (simp add: edge_line_def)

lemma no_break_edge:
  "no_break p \<Longrightarrow> no_break d \<Longrightarrow>
   no_break ([CHR 0x22] @ p @ [CHR 0x22] @ '' --> '' @ [CHR 0x22] @ d @ [CHR 0x22])"
  by (auto simp: no_break_def is_linebreak_def)

lemma splitlines_diagram:
  assumes "\<forall>(p, d) \<in> set es. no_break p \<and> no_break d"
  shows "str_splitlines
           (''@startuml'' @ [CHR 0x0A] @ concat (map (\<lambda>(p, d). edge_line p d) es) @ ''@enduml'')
         = ''@startuml''
           # map (\<lambda>(p, d). [CHR 0x22] @ p @ [CHR 0x22] @ '' --> '' @ [CHR 0x22] @ d @ [CHR 0x22]) es
           @ [''@enduml'']"
proof -
  let ?line = "\<lambda>(p, d). [CHR 0x22] @ p @ [CHR 0x22] @ '' --> '' @ [CHR 0x22] @ d @ [CHR 0x22]"
  let ?ls = "''@startuml'' # map ?line es"
  have texts: "map (\<lambda>(p, d). edge_line p d) es = map (\<lambda>l. l @ [CHR 0x0A]) (map ?line es)"
    by (simp add: edge_line_text split_def)
  have "no_break ''@startuml''" by (simp add: no_break_def is_linebreak_def)
  moreover have "\<forall>l \<in> set (map ?line es). no_break l"
    using assms no_break_edge by (auto simp: split_def)
  ultimately have nb: "\<forall>l \<in> set ?ls. no_break l" by simp
  have last_line: "lines_from [] ''@enduml'' = [''@enduml'']"
    by (simp add: is_linebreak_def)
  have "''@startuml'' @ [CHR 0x0A] @ concat (map (\<lambda>(p, d). edge_line p d) es) @ ''@enduml''
      = concat (map (\<lambda>l. l @ [CHR 0x0A]) ?ls) @ ''@enduml''"
    unfolding texts by simp
  then have "str_splitlines
           (''@startuml'' @ [CHR 0x0A] @ concat (map (\<lambda>(p, d). edge_line p d) es) @ ''@enduml'')
      = lines_from [] (concat (map (\<lambda>l. l @ [CHR 0x0A]) ?ls) @ ''@enduml'')"
    by (simp only: str_splitlines_def)
  also have "\<dots> = ?ls @ lines_from [] ''@enduml''"
    using nb by (rule lines_from_lines)
  also have "\<dots> = ''@startuml'' # map ?line es @ [''@enduml'']"
    by (simp only: last_line append.simps)
  finally show ?thesis .
qed

lemma append_sep_eq:
  "c \<notin> set xs \<Longrightarrow> c \<notin> set ys \<Longrightarrow> xs @ c # r = ys @ c # r' \<Longrightarrow> xs = ys \<and> r = r'"
proof (induction xs arbitrary: ys)
  case Nil
  then show ?case by (cases ys) auto
next
  case (Cons x xs)
  then show ?case by (cases ys) auto
qed

lemma edge_text_inj:
  assumes "CHR 0x22 \<notin> set p" and "CHR 0x22 \<notin> set p'"
    and "[CHR 0x22] @ p @ [CHR 0x22] @ '' --> '' @ [CHR 0x22] @ d @ [CHR 0x22]
       = [CHR 0x22] @ p' @ [CHR 0x22] @ '' --> '' @ [CHR 0x22] @ d' @ [CHR 0x22]"
  shows "p = p' \<and> d = d'"
proof -
  from assms(3) have "p @ CHR 0x22 # ('' --> '' @ [CHR 0x22] @ d @ [CHR 0x22])
      = p' @ CHR 0x22 # ('' --> '' @ [CHR 0x22] @ d' @ [CHR 0x22])"
    by simp
  from append_sep_eq [OF assms(1,2) this] show ?thesis by simp
qed

lemma distinct_edge_texts:
  assumes "distinct es" and "\<forall>(p, d) \<in> set es. CHR 0x22 \<notin> set p"
  shows "distinct (map (\<lambda>(p, d). [CHR 0x22] @ p @ [CHR 0x22] @ '' --> '' @ [CHR 0x22] @ d @ [CHR 0x22]) es)"
proof -
  let ?line = "\<lambda>(p, d). [CHR 0x22] @ p @ [CHR 0x22] @ '' --> '' @ [CHR 0x22] @ d @ [CHR 0x22]"
  have "inj_on ?line (set es)"
  proof (rule inj_onI)
    fix x y
    assume x: "x \<in> set es" and y: "y \<in> set es" and eq: "?line x = ?line y"
    obtain p d where xp: "x = (p, d)" by (cases x)
    obtain p' d' where yp: "y = (p', d')" by (cases y)
    have "CHR 0x22 \<notin> set p" and "CHR 0x22 \<notin> set p'"
      using assms(2) x y xp yp by auto
    moreover have "[CHR 0x22] @ p @ [CHR 0x22] @ '' --> '' @ [CHR 0x22] @ d @ [CHR 0x22]
       = [CHR 0x22] @ p' @ [CHR 0x22] @ '' --> '' @ [CHR 0x22] @ d' @ [CHR 0x22]"
      using eq xp yp by simp
    ultimately have "p = p' \<and> d = d'" by (rule edge_text_inj)
    then show "x = y" using xp yp by simp
  qed
  with assms(1) show ?thesis by (simp add: distinct_map)
qed

text \<open>
  C5, as amended. For every dictionary (distinct keys, each value a set) whose package
  names hold no line boundary, the text that \<^verbatim>\<open>build_puml_graph\<close> returns has these
  lines: the start marker, then one edge line \<^verbatim>\<open>"p" --> "d"\<close> for each element of a
  list \<open>es\<close> of pairs, then the end marker, where \<open>es\<close> holds every pair \<open>(p, d)\<close> with
  \<open>d\<close> in the set of \<open>p\<close> exactly once and nothing else; so the number of edge lines is
  the sum of the sizes of the sets. When no key holds a double quote, different pairs
  have different edge lines. For the empty dictionary the lines are the two markers
  alone.
\<close>

theorem serialization_lines:
  assumes "order_ok w" and "distinct (map fst g)" and "\<forall>(p, ds) \<in> set g. distinct ds"
    and "\<forall>(p, ds) \<in> set g. no_break p \<and> (\<forall>d \<in> set ds. no_break d)"
  shows "build_puml_graph w [] = ''@startuml'' @ [CHR 0x0A] @ ''@enduml'' \<and>
    str_splitlines (build_puml_graph w []) = [''@startuml'', ''@enduml''] \<and>
    (\<exists>es. build_puml_graph w g =
             ''@startuml'' @ [CHR 0x0A] @ concat (map (\<lambda>(p, d). edge_line p d) es) @ ''@enduml'' \<and>
          str_splitlines (build_puml_graph w g) =
             ''@startuml''
             # map (\<lambda>(p, d). [CHR 0x22] @ p @ [CHR 0x22] @ '' --> '' @ [CHR 0x22] @ d @ [CHR 0x22]) es
             @ [''@enduml''] \<and>
          distinct es \<and>
          set es = {(p, d). \<exists>ds. (p, ds) \<in> set g \<and> d \<in> set ds} \<and>
          length es = (\<Sum>(p, ds) \<leftarrow> g. card (set ds)) \<and>
          ((\<forall>(p, ds) \<in> set g. CHR 0x22 \<notin> set p) \<longrightarrow>
           distinct (map (\<lambda>(p, d). [CHR 0x22] @ p @ [CHR 0x22] @ '' --> '' @ [CHR 0x22] @ d @ [CHR 0x22]) es)))"
proof -
  have empty: "build_puml_graph w [] = ''@startuml'' @ [CHR 0x0A] @ ''@enduml''"
    by (simp add: build_puml_graph_def)
  have empty_lines: "str_splitlines (build_puml_graph w []) = [''@startuml'', ''@enduml'']"
    unfolding empty by (simp add: str_splitlines_def is_linebreak_def)
  have out: "build_puml_graph w g =
      ''@startuml'' @ [CHR 0x0A] @ concat (map (\<lambda>(p, d). edge_line p d) (edges w g)) @ ''@enduml''"
    by (rule build_puml_graph_edges)
  have once: "distinct (edges w g)" using assms(1,2,3) by (rule distinct_edges)
  have pairs: "set (edges w g) = {(p, d). \<exists>ds. (p, ds) \<in> set g \<and> d \<in> set ds}"
    using assms(1,3) by (rule set_edges)
  have count: "length (edges w g) = (\<Sum>(p, ds) \<leftarrow> g. card (set ds))"
    using assms(1,3) by (rule length_edges)
  have "\<forall>(p, d) \<in> set (edges w g). no_break p \<and> no_break d"
    unfolding pairs using assms(4) by fastforce
  then have lines: "str_splitlines (build_puml_graph w g) =
             ''@startuml''
             # map (\<lambda>(p, d). [CHR 0x22] @ p @ [CHR 0x22] @ '' --> '' @ [CHR 0x22] @ d @ [CHR 0x22])
                 (edges w g)
             @ [''@enduml'']"
    unfolding out by (rule splitlines_diagram)
  have differ: "distinct (map (\<lambda>(p, d). [CHR 0x22] @ p @ [CHR 0x22] @ '' --> '' @ [CHR 0x22] @ d @ [CHR 0x22])
                 (edges w g))"
    if quotes: "\<forall>(p, ds) \<in> set g. CHR 0x22 \<notin> set p"
  proof (rule distinct_edge_texts [OF once])
    show "\<forall>(p, d) \<in> set (edges w g). CHR 0x22 \<notin> set p"
    proof (intro ballI)
      fix x
      assume x: "x \<in> set (edges w g)"
      obtain p d where pd: "x = (p, d)" by (cases x)
      then have "p \<in> fst ` set g" using x edges_keys by blast
      then have "CHR 0x22 \<notin> set p" using quotes by force
      then show "case x of (p, d) \<Rightarrow> CHR 0x22 \<notin> set p" using pd by simp
    qed
  qed
  show ?thesis
    apply (intro conjI)
    subgoal by (rule empty)
    subgoal by (rule empty_lines)
    subgoal
      apply (rule exI [of _ "edges w g"])
      apply (intro conjI impI)
      subgoal by (rule out)
      subgoal by (rule lines)
      subgoal by (rule once)
      subgoal by (rule pairs)
      subgoal by (rule count)
      subgoal by (rule differ)
      done
    done
qed

theorem serialization_lines_witness:
  "order_ok (table_world []) \<and>
   distinct (map fst [(''app'', [''libfoo'', ''libbar'']), (''libfoo'', []), (''libbar'', [''libfoo''])]) \<and>
   distinct [''libfoo'', ''libbar''] \<and> distinct ([] :: string list) \<and> distinct [''libfoo''] \<and>
   no_break ''app'' \<and> no_break ''libfoo'' \<and> no_break ''libbar'' \<and>
   (\<exists>es. str_splitlines (build_puml_graph (table_world [])
            [(''app'', [''libfoo'', ''libbar'']), (''libfoo'', []), (''libbar'', [''libfoo''])]) =
             ''@startuml''
             # map (\<lambda>(p, d). [CHR 0x22] @ p @ [CHR 0x22] @ '' --> '' @ [CHR 0x22] @ d @ [CHR 0x22]) es
             @ [''@enduml''] \<and>
          distinct es \<and> (''libbar'', ''libfoo'') \<in> set es \<and> length es = 3)"
proof -
  let ?g = "[(''app'', [''libfoo'', ''libbar'']), (''libfoo'', []), (''libbar'', [''libfoo''])]"
  have ord: "order_ok (table_world [])" by (simp add: order_ok_def table_world_def)
  have keys: "distinct (map fst ?g)" by simp
  have vals: "\<forall>(p, ds) \<in> set ?g. distinct ds" by simp
  have nb: "no_break ''app'' \<and> no_break ''libfoo'' \<and> no_break ''libbar''"
    by (simp add: no_break_def is_linebreak_def)
  then have names: "\<forall>(p, ds) \<in> set ?g. no_break p \<and> (\<forall>d \<in> set ds. no_break d)" by simp
  have sets: "distinct [''libfoo'', ''libbar''] \<and> distinct ([] :: string list) \<and> distinct [''libfoo'']"
    by simp
  from serialization_lines [OF ord keys vals names]
  have "\<exists>es. str_splitlines (build_puml_graph (table_world []) ?g) =
             ''@startuml''
             # map (\<lambda>(p, d). [CHR 0x22] @ p @ [CHR 0x22] @ '' --> '' @ [CHR 0x22] @ d @ [CHR 0x22]) es
             @ [''@enduml''] \<and>
          distinct es \<and> (''libbar'', ''libfoo'') \<in> set es \<and> length es = 3"
  proof (elim exE conjE)
    fix es
    assume out: "str_splitlines (build_puml_graph (table_world []) ?g) =
             ''@startuml''
             # map (\<lambda>(p, d). [CHR 0x22] @ p @ [CHR 0x22] @ '' --> '' @ [CHR 0x22] @ d @ [CHR 0x22]) es
             @ [''@enduml'']"
      and once: "distinct es"
      and pairs: "set es = {(p, d). \<exists>ds. (p, ds) \<in> set ?g \<and> d \<in> set ds}"
      and count: "length es = (\<Sum>(p, ds) \<leftarrow> ?g. card (set ds))"
    have "(''libbar'', [''libfoo'']) \<in> set ?g \<and> ''libfoo'' \<in> set [''libfoo'']" by simp
    then have edge: "(''libbar'', ''libfoo'') \<in> set es" unfolding pairs by blast
    have three: "length es = 3" unfolding count by simp
    from out once edge three show ?thesis by (intro exI [of _ es] conjI)
  qed
  with ord keys sets nb show ?thesis by (intro conjI) simp_all
qed

text \<open>
  C5 as stated fails for a name that holds a line boundary: the names are written into
  the text as they are, so the dictionary with the single pair of \<open>a\<close> and the name
  \<^verbatim>\<open>b"\<close>, line feed, \<^verbatim>\<open>"c" --> "d\<close> gives two edge lines, the very text of the
  dictionary \<open>{a: {b}, c: {d}}\<close>.
\<close>

theorem one_pair_two_edge_lines:
  "build_puml_graph (table_world [])
     [(''a'', [[CHR ''b'', CHR 0x22, CHR 0x0A, CHR 0x22] @ ''c'' @ [CHR 0x22] @ '' --> '' @ [CHR 0x22] @ ''d''])]
   = build_puml_graph (table_world []) [(''a'', [''b'']), (''c'', [''d''])] \<and>
   str_splitlines (build_puml_graph (table_world [])
     [(''a'', [[CHR ''b'', CHR 0x22, CHR 0x0A, CHR 0x22] @ ''c'' @ [CHR 0x22] @ '' --> '' @ [CHR 0x22] @ ''d''])])
   = [''@startuml'',
      [CHR 0x22] @ ''a'' @ [CHR 0x22] @ '' --> '' @ [CHR 0x22] @ ''b'' @ [CHR 0x22],
      [CHR 0x22] @ ''c'' @ [CHR 0x22] @ '' --> '' @ [CHR 0x22] @ ''d'' @ [CHR 0x22],
      ''@enduml''] \<and>
   (\<Sum>(p, ds) \<leftarrow> [(''a'', [[CHR ''b'', CHR 0x22, CHR 0x0A, CHR 0x22] @ ''c'' @ [CHR 0x22] @ '' --> '' @ [CHR 0x22] @ ''d''])].
       card (set ds)) = 1"
  by (simp add: build_puml_graph_def edge_line_def table_world_def str_splitlines_def is_linebreak_def)

section \<open>Failed queries\<close>

lemma get_deps_same_answers:
  assumes "\<And>p. direct_deps w p = direct_deps w' p" and "set_order w = set_order w'"
  shows "get_deps w max_depth package current_depth s = get_deps w' max_depth package current_depth s"
  using assms
proof (induction w max_depth package current_depth s rule: get_deps.induct)
  case (1 w max_depth package current_depth s)
  show ?case
  proof (cases "current_depth > max_depth \<or> package \<in> visited s")
    case True
    then show ?thesis by (simp add: get_deps_stop)
  next
    case False
    obtain ds where ds: "direct_deps w package = Inr ds" using direct_deps_total by blast
    then have ds': "direct_deps w' package = Inr ds" using "1.prems"(1) by simp
    have "get_deps w max_depth dep (current_depth + 1) u = get_deps w' max_depth dep (current_depth + 1) u"
      if "dep \<in> set (set_order w ds)" for dep u
      using "1.IH" [OF False refl refl refl refl refl _ that "1.prems"] ds
      by (simp add: direct_deps_def)
    then show ?thesis
      unfolding get_deps_expand [OF False ds] get_deps_expand [OF False ds'] "1.prems"(2) [symmetric]
      by (intro for_each_cong refl)
  qed
qed

lemma set_add_distinct: "distinct xs \<Longrightarrow> distinct (set_add x xs)"
  by (simp add: set_add_def)

lemma collect_deps_distinct:
  "distinct acc \<Longrightarrow> collect_deps lines acc = Inr ds \<Longrightarrow> distinct ds"
proof (induction lines arbitrary: acc)
  case Nil
  then show ?case by simp
next
  case (Cons line lines)
  then show ?case
    by (auto split: if_splits sum.splits dest: set_add_distinct) 
qed

lemma direct_deps_distinct: "direct_deps w p = Inr ds \<Longrightarrow> distinct ds"
  unfolding direct_deps_def using collect_deps_distinct [of "[]"] by simp

lemma within_refl: "within w n a a"
  by (cases n) simp_all

lemma within_step:
  "direct_deps w a = Inr ds \<Longrightarrow> b \<in> set ds \<Longrightarrow> within w n b q \<Longrightarrow> within w (Suc n) a q"
  by auto

lemma get_deps_within:
  "order_ok w \<Longrightarrow> get_deps w max_depth package current_depth s = Inr s' \<Longrightarrow>
    \<forall>q \<in> visited s' - visited s. within w (nat (max_depth - current_depth)) package q"
proof (induction w max_depth package current_depth s arbitrary: s' rule: get_deps.induct)
  case (1 w max_depth package current_depth s)
  show ?case
  proof (cases "current_depth > max_depth \<or> package \<in> visited s")
    case True
    then show ?thesis using "1.prems"(2) by (simp add: get_deps_stop)
  next
    case False
    obtain ds where ds: "direct_deps w package = Inr ds" using direct_deps_total by blast
    have order: "set (set_order w ds) = set ds"
      using "1.prems"(1) direct_deps_distinct [OF ds] by (simp add: order_ok_def)
    let ?s2 = "s\<lparr>visited := insert package (visited s),
          calls := calls s @ [[''apt-cache'', ''depends'', package]],
          dependencies := dict_set package ds (dependencies s)\<rparr>"
    let ?I = "\<lambda>u. \<forall>q \<in> visited u - visited s.
                  within w (nat (max_depth - current_depth)) package q"
    have loop: "for_each (\<lambda>dep. get_deps w max_depth dep (current_depth + 1)) (set_order w ds) ?s2
        = Inr s'"
      using "1.prems"(2) get_deps_expand [OF False ds] by simp
    have "?I s'"
    proof (rule for_each_invariant [where I = ?I, OF loop])
      show "?I ?s2" using within_refl by auto
    next
      fix dep u u'
      assume dep: "dep \<in> set (set_order w ds)" and u: "?I u"
        and run: "get_deps w max_depth dep (current_depth + 1) u = Inr u'"
      show "?I u'"
      proof (cases "current_depth + 1 > max_depth")
        case True
        then have "u' = u" using run by (simp add: get_deps_stop)
        with u show ?thesis by simp
      next
        case below: False
        then have depth: "nat (max_depth - current_depth) = Suc (nat (max_depth - (current_depth + 1)))"
          by simp
        have new: "\<forall>q \<in> visited u' - visited u.
                     within w (nat (max_depth - (current_depth + 1))) dep q"
          using "1.IH" [OF False refl refl refl refl refl _ dep "1.prems"(1) run] ds
          by (simp add: direct_deps_def)
        have in_ds: "dep \<in> set ds" using dep order by simp
        show ?thesis
        proof
          fix q
          assume q: "q \<in> visited u' - visited s"
          show "within w (nat (max_depth - current_depth)) package q"
          proof (cases "q \<in> visited u")
            case True
            with q u show ?thesis by simp
          next
            case False
            with q new have "within w (nat (max_depth - (current_depth + 1))) dep q" by simp
            then show ?thesis
              unfolding depth using ds in_ds by (rule within_step [rotated 2])
          qed
        qed
      qed
    qed
    then show ?thesis .
  qed
qed

lemma loop_visits_all:
  "state_ok w s \<Longrightarrow> d \<le> max_depth \<Longrightarrow>
   for_each (\<lambda>dep. get_deps w max_depth dep d) xs s = Inr s' \<Longrightarrow> set xs \<subseteq> visited s'"
proof (induction xs arbitrary: s)
  case Nil
  then show ?case by simp
next
  case (Cons x xs)
  from Cons.prems(3) obtain u where u: "get_deps w max_depth x d s = Inr u"
    and rest: "for_each (\<lambda>dep. get_deps w max_depth dep d) xs u = Inr s'"
    by (auto split: sum.splits)
  have x: "x \<in> visited u" using get_deps_visits [OF Cons.prems(1,2) u] .
  have ok: "state_ok w u" using get_deps_state_ok [OF Cons.prems(1) u] by simp
  have "visited u \<subseteq> visited s'" using loop_state_ok [OF ok rest] by simp
  moreover have "set xs \<subseteq> visited s'" using Cons.IH [OF ok Cons.prems(2) rest] .
  ultimately show ?case using x by auto
qed

lemma start_deps_visited:
  assumes "order_ok w" and "2 \<le> max_depth"
    and "fetch_run w package_name max_depth = Inr s" and "direct_deps w package_name = Inr ds"
  shows "set ds \<subseteq> visited s"
proof -
  let ?s0 = "\<lparr>dependencies = [], visited = {}, calls = []\<rparr>"
  let ?s2 = "?s0\<lparr>visited := insert package_name (visited ?s0),
          calls := calls ?s0 @ [[''apt-cache'', ''depends'', package_name]],
          dependencies := dict_set package_name ds (dependencies ?s0)\<rparr>"
  have go: "\<not> (1 > max_depth \<or> package_name \<in> visited ?s0)" using assms(2) by simp
  have loop: "for_each (\<lambda>dep. get_deps w max_depth dep (1 + 1)) (set_order w ds) ?s2 = Inr s"
    using assms(3) get_deps_expand [OF go assms(4)] by (simp add: fetch_run_def)
  have ok: "state_ok w ?s2"
    by (rule state_ok_step [OF state_ok_init _ assms(4)]) simp
  have "set (set_order w ds) \<subseteq> visited s"
    using loop_visits_all [OF ok _ loop] assms(2) by simp
  moreover have "set (set_order w ds) = set ds"
    using assms(1) direct_deps_distinct [OF assms(4)] by (simp add: order_ok_def)
  ultimately show ?thesis by simp
qed

lemma level_ok_mono:
  "level_ok w m lvl lo V q \<Longrightarrow> V \<subseteq> V' \<Longrightarrow> lo' \<le> lo \<Longrightarrow> level_ok w m lvl lo' V' q"
  unfolding level_ok_def by (meson order_trans subset_trans)

lemma has_parent_mono:
  "has_parent w lvl N q \<Longrightarrow> N \<subseteq> N' \<Longrightarrow> has_parent w lvl N' q"
  unfolding has_parent_def by blast

lemma has_parent_cong:
  "has_parent w lvl N q \<Longrightarrow> lvl' q = lvl q \<Longrightarrow> (\<And>r. r \<in> N \<Longrightarrow> lvl' r = lvl r) \<Longrightarrow>
   has_parent w lvl' N q"
  unfolding has_parent_def by auto

lemma get_deps_levels:
  "order_ok w \<Longrightarrow> state_ok w s \<Longrightarrow>
   get_deps w max_depth package current_depth s = Inr s' \<Longrightarrow>
   \<exists>lvl. \<forall>q \<in> visited s' - visited s.
      level_ok w max_depth lvl current_depth (visited s') q \<and>
      (q = package \<and> lvl q = current_depth \<or>
       q \<noteq> package \<and> has_parent w lvl (visited s' - visited s) q)"
proof (induction w max_depth package current_depth s arbitrary: s' rule: get_deps.induct)
  case (1 w max_depth package current_depth s)
  show ?case
  proof (cases "current_depth > max_depth \<or> package \<in> visited s")
    case True
    then have "s' = s" using "1.prems"(3) by (simp add: get_deps_stop)
    then show ?thesis by simp
  next
    case False
    obtain ds where ds: "direct_deps w package = Inr ds" using direct_deps_total by blast
    have cd: "collect_deps
        (str_splitlines (stdout (subprocess_run w [''apt-cache'', ''depends'', package]))) [] = Inr ds"
      using ds by (simp add: direct_deps_def)
    have order: "set (set_order w ds) = set ds"
      using "1.prems"(1) direct_deps_distinct [OF ds] by (simp add: order_ok_def)
    let ?s2 = "s\<lparr>visited := insert package (visited s),
          calls := calls s @ [[''apt-cache'', ''depends'', package]],
          dependencies := dict_set package ds (dependencies s)\<rparr>"
    have ok2: "state_ok w ?s2" using state_ok_step [OF "1.prems"(2) _ ds] False by simp
    have v2: "visited ?s2 = insert package (visited s)" by simp
    let ?J = "\<lambda>u lvl q. level_ok w max_depth lvl (current_depth + 1) (visited u) q \<and>
                 (q \<in> set ds \<and> lvl q = current_depth + 1 \<or>
                  has_parent w lvl (visited u - visited ?s2) q)"
    let ?I = "\<lambda>u. state_ok w u \<and> visited ?s2 \<subseteq> visited u \<and>
                 (\<exists>lvl. \<forall>q \<in> visited u - visited ?s2. ?J u lvl q)"
    have loop: "for_each (\<lambda>dep. get_deps w max_depth dep (current_depth + 1)) (set_order w ds) ?s2
        = Inr s'"
      using "1.prems"(3) get_deps_expand [OF False ds] by simp
    have "?I s'"
    proof (rule for_each_invariant [where I = ?I, OF loop])
      show "?I ?s2" using ok2 by simp
    next
      fix dep u u'
      assume dep: "dep \<in> set (set_order w ds)" and u: "?I u"
        and run: "get_deps w max_depth dep (current_depth + 1) u = Inr u'"
      from u obtain lvl1 where ok_u: "state_ok w u" and sub_u: "visited ?s2 \<subseteq> visited u"
        and old: "\<forall>q \<in> visited u - visited ?s2. ?J u lvl1 q" by blast
      have ok_u': "state_ok w u'" and mono: "visited u \<subseteq> visited u'"
        using get_deps_state_ok [OF ok_u run] by simp_all
      have in_ds: "dep \<in> set ds" using dep order by simp
      obtain lvl2 where new: "\<forall>q \<in> visited u' - visited u.
          level_ok w max_depth lvl2 (current_depth + 1) (visited u') q \<and>
          (q = dep \<and> lvl2 q = current_depth + 1 \<or>
           q \<noteq> dep \<and> has_parent w lvl2 (visited u' - visited u) q)"
        using "1.IH" [OF False refl refl refl refl refl cd dep "1.prems"(1) ok_u run]
        by blast
      define lvl where "lvl = (\<lambda>q. if q \<in> visited u then lvl1 q else lvl2 q)"
      have "?J u' lvl q" if q: "q \<in> visited u' - visited ?s2" for q
      proof (cases "q \<in> visited u")
        case True
        then have qq: "q \<in> visited u - visited ?s2" using q by simp
        then have j: "?J u lvl1 q" using old by blast
        have same: "lvl q = lvl1 q" using True by (simp add: lvl_def)
        have "level_ok w max_depth lvl1 (current_depth + 1) (visited u') q"
          using j mono by (blast intro: level_ok_mono)
        then have a: "level_ok w max_depth lvl (current_depth + 1) (visited u') q"
          using same by (simp add: level_ok_def)
        have b: "q \<in> set ds \<and> lvl q = current_depth + 1 \<or>
                 has_parent w lvl (visited u' - visited ?s2) q"
        proof (cases "q \<in> set ds \<and> lvl1 q = current_depth + 1")
          case True
          then show ?thesis using same by simp
        next
          case False
          then have "has_parent w lvl1 (visited u - visited ?s2) q" using j by blast
          then have "has_parent w lvl (visited u - visited ?s2) q"
            by (rule has_parent_cong) (simp_all add: lvl_def True)
          then have "has_parent w lvl (visited u' - visited ?s2) q"
            by (rule has_parent_mono) (use mono in blast)
          then show ?thesis by simp
        qed
        from a b show ?thesis by simp
      next
        case False
        then have qq: "q \<in> visited u' - visited u" using q by simp
        have same: "lvl q = lvl2 q" using False by (simp add: lvl_def)
        from new qq have n: "level_ok w max_depth lvl2 (current_depth + 1) (visited u') q"
          and p: "q = dep \<and> lvl2 q = current_depth + 1 \<or>
           q \<noteq> dep \<and> has_parent w lvl2 (visited u' - visited u) q" by blast+
        have a: "level_ok w max_depth lvl (current_depth + 1) (visited u') q"
          using n same by (simp add: level_ok_def)
        have b: "q \<in> set ds \<and> lvl q = current_depth + 1 \<or>
                 has_parent w lvl (visited u' - visited ?s2) q"
        proof (cases "q = dep")
          case True
          then show ?thesis using p in_ds same by auto
        next
          case False
          then have "has_parent w lvl2 (visited u' - visited u) q" using p by simp
          then have "has_parent w lvl (visited u' - visited u) q"
            by (rule has_parent_cong) (simp_all add: lvl_def \<open>q \<notin> visited u\<close>)
          then have "has_parent w lvl (visited u' - visited ?s2) q"
            by (rule has_parent_mono) (use sub_u in blast)
          then show ?thesis by simp
        qed
        from a b show ?thesis by simp
      qed
      then have "\<exists>lvl. \<forall>q \<in> visited u' - visited ?s2. ?J u' lvl q" by blast
      then show "?I u'" using ok_u' sub_u mono by blast
    qed
    then obtain lvl0 where sub: "visited ?s2 \<subseteq> visited s'"
      and below: "\<forall>q \<in> visited s' - visited ?s2. ?J s' lvl0 q" by blast
    define lvl where "lvl = lvl0(package := current_depth)"
    have lvl_package: "lvl package = current_depth" by (simp add: lvl_def)
    have lvl_other: "lvl q = lvl0 q" if "q \<noteq> package" for q
      using that by (simp add: lvl_def)
    have p_in: "package \<in> visited s'" using sub by simp
    have p_new: "package \<notin> visited s" using False by simp
    have p_fresh: "package \<in> visited s' - visited s" using p_in p_new by simp
    have depth: "current_depth \<le> max_depth" using False by simp
    have children: "set ds \<subseteq> visited s'" if "current_depth < max_depth"
    proof -
      have "set (set_order w ds) \<subseteq> visited s'"
        using loop_visits_all [OF ok2 _ loop] that by simp
      then show ?thesis using order by simp
    qed
    have root: "level_ok w max_depth lvl current_depth (visited s') package"
      unfolding level_ok_def lvl_package using depth children ds by simp
    have rest: "level_ok w max_depth lvl current_depth (visited s') q \<and>
        has_parent w lvl (visited s' - visited s) q"
      if q: "q \<in> visited s' - visited s" and other: "q \<noteq> package" for q
    proof -
      have qq: "q \<in> visited s' - visited ?s2" using q other by simp
      then have j: "?J s' lvl0 q" using below by blast
      have same: "lvl q = lvl0 q" using other by (rule lvl_other)
      have "level_ok w max_depth lvl0 (current_depth + 1) (visited s') q" using j by simp
      then have "level_ok w max_depth lvl0 current_depth (visited s') q"
        by (rule level_ok_mono) simp_all
      then have a: "level_ok w max_depth lvl current_depth (visited s') q"
        using same by (simp add: level_ok_def)
      have b: "has_parent w lvl (visited s' - visited s) q"
      proof (cases "q \<in> set ds \<and> lvl0 q = current_depth + 1")
        case True
        then have "direct_deps w package = Inr ds \<and> q \<in> set ds \<and> lvl q = lvl package + 1"
          using ds same lvl_package by simp
        with p_fresh show ?thesis unfolding has_parent_def by blast
      next
        case f: False
        then have "has_parent w lvl0 (visited s' - visited ?s2) q" using j by blast
        then have "has_parent w lvl (visited s' - visited ?s2) q"
        proof (rule has_parent_cong)
          show "lvl q = lvl0 q" by (rule same)
        next
          fix r
          assume "r \<in> visited s' - visited ?s2"
          then have "r \<noteq> package" by simp
          then show "lvl r = lvl0 r" by (rule lvl_other)
        qed
        moreover have "visited s' - visited ?s2 \<subseteq> visited s' - visited s" by auto
        ultimately show ?thesis by (rule has_parent_mono)
      qed
      from a b show ?thesis by simp
    qed
    show ?thesis
    proof (intro exI [of _ lvl] ballI)
      fix q
      assume q: "q \<in> visited s' - visited s"
      show "level_ok w max_depth lvl current_depth (visited s') q \<and>
        (q = package \<and> lvl q = current_depth \<or>
         q \<noteq> package \<and> has_parent w lvl (visited s' - visited s) q)"
      proof (cases "q = package")
        case True
        then show ?thesis using root lvl_package by simp
      next
        case False
        then show ?thesis using rest [OF q False] by simp
      qed
    qed
  qed
qed




text \<open>
  C1 does not hold of the code. When the query for the starting package fails (status
  100, nothing printed), the dictionary is \<open>{nosuch: {}}\<close>, which is not empty: \<^verbatim>\<open>main\<close>
  skips its branch \<^verbatim>\<open>if not dependencies\<close>, writes a diagram without edges, calls the
  renderer and ends with status 0 and the message of success.
\<close>

theorem failed_start_query_not_reported:
  "returncode (subprocess_run (table_world render_table) [''apt-cache'', ''depends'', ''nosuch'']) = 100 \<and>
   stdout (subprocess_run (table_world render_table) [''apt-cache'', ''depends'', ''nosuch'']) = [] \<and>
   direct_deps (table_world render_table) ''nosuch'' = Inr [] \<and>
   fetch_dependencies (table_world render_table) ''nosuch'' 3 ''http://archive.ubuntu.com/ubuntu''
     = Inr [(''nosuch'', [])] \<and>
   main (table_world render_table)
     \<lparr>arg_plantuml_path = ''plantuml'', arg_package = ''nosuch'', arg_output = ''out.png'',
      arg_depth = 3, arg_repo = ''http://archive.ubuntu.com/ubuntu''\<rparr>
     = Inr \<lparr>exit_status = 0,
            printed = ''Graph successfully saved to out.png'' @ [CHR 0x0A],
            printed_err = [],
            written = [(''out.puml'', ''@startuml'' @ [CHR 0x0A] @ ''@enduml'')]\<rparr>"
  by (simp add: eval_defs main_def render_graph_def build_puml_graph_def render_table_def)

end
